theory Spec2Isabelle
  imports Main
begin

section \<open>Errors\<close>

text \<open>
  The exceptions the library code can raise, as values.  \<open>wrong_private_key\<close> is
  \<^verbatim>\<open>new Error(UtilsError.wrong_private_key)\<close>, \<open>account_keys_incorrect\<close> is
  \<^verbatim>\<open>new Error(AccountError.account_keys_incorrect)\<close>, and \<open>Thrown msg\<close> is an exception
  raised inside a dependency (key decoding, the memo cipher, the big-integer parser) that
  reaches the caller as it was raised.
\<close>

datatype error = wrong_private_key | account_keys_incorrect | Thrown string

section \<open>The key and cipher operations the scanner calls\<close>

text \<open>
  \<^verbatim>\<open>KeyPrivate.fromWif\<close>, \<^verbatim>\<open>KeyPublic.fromString\<close> (module \<^verbatim>\<open>model/utils\<close>),
  \<^verbatim>\<open>CryptoUtils.decryptWithChecksum\<close> (module \<^verbatim>\<open>crypt\<close>) and \<^verbatim>\<open>Buffer.toString\<close> are
  taken as parameters.  A call that throws returns \<open>Inl\<close> with the message.  Every
  argument below is a string, which the \<^verbatim>\<open>@Validate(Type.string)\<close> decorators accept.
\<close>

record ('priv, 'pub, 'buf) crypto =
  KeyPrivate_fromWif :: "string \<Rightarrow> string + 'priv"
  KeyPublic_fromString :: "string \<Rightarrow> string + 'pub"
  CryptoUtils_decryptWithChecksum :: "string \<Rightarrow> 'priv \<Rightarrow> 'pub \<Rightarrow> string \<Rightarrow> string + 'buf"
  Buffer_toString :: "'buf \<Rightarrow> string"

text \<open>
  \<^verbatim>\<open>Utils.privateKeyFromWif\<close>: every exception of \<^verbatim>\<open>KeyPrivate.fromWif\<close> is caught and
  replaced by \<open>wrong_private_key\<close>.
\<close>

definition privateKeyFromWif :: "('priv, 'pub, 'buf) crypto \<Rightarrow> string \<Rightarrow> error + 'priv" where
  "privateKeyFromWif L pkWif =
     (case KeyPrivate_fromWif L pkWif of
        Inl exception \<Rightarrow> Inl wrong_private_key
      | Inr k \<Rightarrow> Inr k)"

text \<open>
  \<^verbatim>\<open>Utils.publicKeyFromString\<close>: no handler, the exception of \<^verbatim>\<open>KeyPublic.fromString\<close>
  passes through.
\<close>

definition publicKeyFromString :: "('priv, 'pub, 'buf) crypto \<Rightarrow> string \<Rightarrow> error + 'pub" where
  "publicKeyFromString L pubKeyString =
     (case KeyPublic_fromString L pubKeyString of
        Inl msg \<Rightarrow> Inl (Thrown msg)
      | Inr k \<Rightarrow> Inr k)"

section \<open>The memo envelope and the multi-key scan\<close>

record TransactionMemo =
  valid :: bool
  memo_from :: string
  memo_message :: string
  memo_nonce :: string
  memo_to :: string

text \<open>
  The body of the outer \<^verbatim>\<open>try\<close> for one candidate: decode the candidate, then decrypt;
  the inner handler replaces every decryption exception by \<open>account_keys_incorrect\<close>.
\<close>

definition attempt ::
  "('priv, 'pub, 'buf) crypto \<Rightarrow> TransactionMemo \<Rightarrow> 'pub \<Rightarrow> string \<Rightarrow> error + string" where
  "attempt L m pubKey pk =
     (case privateKeyFromWif L pk of
        Inl e \<Rightarrow> Inl e
      | Inr pKey \<Rightarrow>
          (case CryptoUtils_decryptWithChecksum L (memo_message m) pKey pubKey (memo_nonce m) of
             Inl err \<Rightarrow> Inl account_keys_incorrect
           | Inr buf \<Rightarrow> Inr (Buffer_toString L buf)))"

text \<open>
  One round of \<^verbatim>\<open>privateKeys.forEach\<close>: the outer handler is empty, so a failed attempt
  leaves \<open>decrypted\<close> as it was; a successful one assigns it.
\<close>

definition scan_step ::
  "('priv, 'pub, 'buf) crypto \<Rightarrow> TransactionMemo \<Rightarrow> 'pub \<Rightarrow> string \<Rightarrow> string \<Rightarrow> string" where
  "scan_step L m pubKey decrypted pk =
     (case attempt L m pubKey pk of
        Inl err \<Rightarrow> decrypted
      | Inr s \<Rightarrow> s)"

definition decryptedMessage ::
  "('priv, 'pub, 'buf) crypto \<Rightarrow> TransactionMemo \<Rightarrow> string list \<Rightarrow> error + string" where
  "decryptedMessage L m privateKeys =
     (if \<not> valid m then Inr ''''
      else
        (case publicKeyFromString L (memo_to m) of
           Inl e \<Rightarrow> Inl e
         | Inr pubKey \<Rightarrow> Inr (foldl (scan_step L m pubKey) '''' privateKeys)))"

text \<open>A candidate succeeds when its attempt yields a plaintext.\<close>

definition succeeds ::
  "('priv, 'pub, 'buf) crypto \<Rightarrow> TransactionMemo \<Rightarrow> 'pub \<Rightarrow> string \<Rightarrow> bool" where
  "succeeds L m pubKey pk = (case attempt L m pubKey pk of Inl e \<Rightarrow> False | Inr s \<Rightarrow> True)"

text \<open>
  A sample instance of the parameters, used to run the scan on concrete inputs: private
  and public keys are numbers, the wire form of a private key is \<open>k\<close> followed by a
  digit; the first and the second key both decrypt the message \<open>12\<close>, to different
  plaintexts, and the third key decrypts the message \<open>3\<close> to the empty plaintext.
\<close>

definition sample_fromWif :: "string \<Rightarrow> string + nat" where
  "sample_fromWif s =
     (if s = ''k1'' then Inr 1 else if s = ''k2'' then Inr 2 else if s = ''k3'' then Inr 3
      else Inl ''bad wif'')"

definition sample_fromString :: "string \<Rightarrow> string + nat" where
  "sample_fromString s = (if s = ''DCT7'' then Inr 7 else Inl ''bad public key'')"

definition sample_decrypt :: "string \<Rightarrow> nat \<Rightarrow> nat \<Rightarrow> string \<Rightarrow> string + string" where
  "sample_decrypt msg priv pub n =
     (if priv = 1 \<and> msg = ''12'' then Inr ''one''
      else if priv = 2 \<and> msg = ''12'' then Inr ''two''
      else if priv = 3 \<and> msg = ''3'' then Inr ''''
      else Inl ''Invalid key, could not decrypt message'')"

definition sample_crypto :: "(nat, nat, string) crypto" where
  "sample_crypto =
     \<lparr> KeyPrivate_fromWif = sample_fromWif,
       KeyPublic_fromString = sample_fromString,
       CryptoUtils_decryptWithChecksum = sample_decrypt,
       Buffer_toString = (\<lambda>b. b) \<rparr>"

definition sample_memo :: TransactionMemo where
  "sample_memo =
     \<lparr> valid = True, memo_from = ''DCT5'', memo_message = ''12'', memo_nonce = ''1'',
       memo_to = ''DCT7'' \<rparr>"

text \<open>The same envelope with a message that decrypts, under the third key, to the empty memo.\<close>

definition empty_memo :: TransactionMemo where
  "empty_memo = sample_memo\<lparr>memo_message := ''3''\<rparr>"

text \<open>
  A second sample of the parameters: a public-key decoder that never throws and yields,
  for a string that is not a public key, a key object without a key; decryption under
  such a key object fails.  The envelope \<open>junk_memo\<close> names a recipient that is not a
  public key.
\<close>

definition lenient_fromString :: "string \<Rightarrow> string + nat option" where
  "lenient_fromString s = Inr (if s = ''DCT7'' then Some 7 else None)"

definition lenient_decrypt :: "string \<Rightarrow> nat \<Rightarrow> nat option \<Rightarrow> string \<Rightarrow> string + string" where
  "lenient_decrypt msg priv pub n =
     (case pub of
        None \<Rightarrow> Inl ''public key is null''
      | Some k \<Rightarrow> sample_decrypt msg priv k n)"

definition lenient_crypto :: "(nat, nat option, string) crypto" where
  "lenient_crypto =
     \<lparr> KeyPrivate_fromWif = sample_fromWif,
       KeyPublic_fromString = lenient_fromString,
       CryptoUtils_decryptWithChecksum = lenient_decrypt,
       Buffer_toString = (\<lambda>b. b) \<rparr>"

definition junk_memo :: TransactionMemo where
  "junk_memo = sample_memo\<lparr>memo_to := ''junk''\<rparr>"

section \<open>Brain-key normalization\<close>

text \<open>
  A JavaScript string is modelled by its sequence of code points: a surrogate pair is one
  code point, an unpaired surrogate is a code point of its own.  The white space and the
  separators below are code points of the basic plane, so trimming, splitting and joining
  act on this sequence as they act on the code units.
\<close>

type_synonym js_string = "nat list"

text \<open>The code points of a literal, for writing examples.\<close>

definition code_points :: "string \<Rightarrow> js_string" where
  "code_points s = map of_char s"

text \<open>
  \<^verbatim>\<open>String.prototype.trim\<close> removes white space and line terminators at both ends: tab,
  line feed, vertical tab, form feed, carriage return, space, no-break space, the space
  separators U+1680, U+2000 to U+200A, U+202F, U+205F and U+3000, the line and paragraph
  separators U+2028 and U+2029, and the byte order mark U+FEFF.
\<close>

definition is_whitespace :: "nat \<Rightarrow> bool" where
  "is_whitespace c =
     (c \<in> set [0x09, 0x0A, 0x0B, 0x0C, 0x0D, 0x20, 0xA0, 0x1680, 0x2028, 0x2029, 0x202F,
                0x205F, 0x3000, 0xFEFF]
      \<or> (0x2000 \<le> c \<and> c \<le> 0x200A))"

definition trim :: "js_string \<Rightarrow> js_string" where
  "trim s = rev (dropWhile is_whitespace (rev (dropWhile is_whitespace s)))"

text \<open>
  \<^verbatim>\<open>String.prototype.toUpperCase\<close> replaces every code point by its upper-case mapping,
  which can be several code points long.  The mapping of one code point is the parameter
  \<open>up\<close>; it belongs to the Unicode tables of the runtime.
\<close>

definition toUpperCase :: "(nat \<Rightarrow> nat list) \<Rightarrow> js_string \<Rightarrow> js_string" where
  "toUpperCase up s = concat (map up s)"

text \<open>The character class of the regular expression \<^verbatim>\<open>/[\t\n\v\f\r ]+/\<close>.\<close>

definition is_separator :: "nat \<Rightarrow> bool" where
  "is_separator c = (c \<in> set [0x09, 0x0A, 0x0B, 0x0C, 0x0D, 0x20])"

text \<open>
  \<^verbatim>\<open>s.split(re)\<close> for a pattern that matches a non-empty maximal run of characters of a
  class: the text before the first run, then the split of what follows the run.  A run
  at the start or at the end yields an empty piece there, and the empty string yields
  one empty piece.
\<close>

function split_runs :: "(nat \<Rightarrow> bool) \<Rightarrow> js_string \<Rightarrow> js_string list" where
  "split_runs P s =
     (let piece = takeWhile (\<lambda>c. \<not> P c) s; rest = dropWhile (\<lambda>c. \<not> P c) s
      in if rest = [] then [piece] else piece # split_runs P (dropWhile P rest))"
  by pat_completeness auto
termination
proof (relation "measure (\<lambda>(P, s). length s)")
  show "wf (measure (\<lambda>(P, s). length s))" by simp
next
  fix P :: "nat \<Rightarrow> bool" and s piece rest
  assume r: "rest = dropWhile (\<lambda>c. \<not> P c) s" and ne: "rest \<noteq> []"
  from ne obtain c cs where rc: "rest = c # cs" by (cases rest) auto
  from ne r have "dropWhile (\<lambda>c. \<not> P c) s \<noteq> []" by simp
  then have "\<not> \<not> P (hd (dropWhile (\<lambda>c. \<not> P c) s))" by (rule hd_dropWhile)
  with r rc have "P c" by (metis list.sel(1))
  then have "length (dropWhile P rest) \<le> length cs"
    by (simp add: rc length_dropWhile_le)
  moreover have "length rest \<le> length s"
    by (simp add: r length_dropWhile_le)
  ultimately have "length (dropWhile P rest) < length s" using rc by simp
  then show "((P, dropWhile P rest), (P, s)) \<in> measure (\<lambda>(P, s). length s)" by simp
qed

text \<open>\<^verbatim>\<open>pieces.join(d)\<close>.\<close>

fun join :: "js_string \<Rightarrow> js_string list \<Rightarrow> js_string" where
  "join d [] = []"
| "join d [x] = x"
| "join d (x # y # ys) = x @ d @ join d (y # ys)"

text \<open>
  \<^verbatim>\<open>Utils.normalize\<close>.  The argument is a string, so the \<^verbatim>\<open>typeof\<close> guard never throws.
\<close>

declare split_runs.simps [simp del]

definition normalize_bk :: "(nat \<Rightarrow> nat list) \<Rightarrow> js_string \<Rightarrow> js_string" where
  "normalize_bk up brainKey =
     join [0x20] (split_runs is_separator (toUpperCase up (trim brainKey)))"

text \<open>
  The specification's wording of the same operation, for comparison with the code: the
  string trimmed at both ends, upper-cased, with every run of characters of a class
  replaced by a single space.  The specification's class is tab, newline, space,
  carriage return and form feed.
\<close>

function collapse :: "(nat \<Rightarrow> bool) \<Rightarrow> js_string \<Rightarrow> js_string" where
  "collapse P [] = []"
| "collapse P (c # cs) =
     (if P c then 0x20 # collapse P (dropWhile P cs) else c # collapse P cs)"
  by pat_completeness auto
termination
  by (relation "measure (\<lambda>(P, s). length s)") (auto simp: length_dropWhile_le less_Suc_eq_le)

definition spec_separator :: "nat \<Rightarrow> bool" where
  "spec_separator c = (c \<in> set [0x09, 0x0A, 0x20, 0x0D, 0x0C])"

definition spec_normalize :: "(nat \<Rightarrow> nat list) \<Rightarrow> js_string \<Rightarrow> js_string" where
  "spec_normalize up s = collapse spec_separator (toUpperCase up (trim s))"

text \<open>
  A sample of the upper-case mapping, used to run the normalization on concrete inputs:
  the letters \<open>a\<close> to \<open>z\<close> and \<open>e\<close> with acute accent map to their capitals, sharp s maps
  to two capital letters \<open>S\<close>, every other code point maps to itself.
\<close>

definition sample_upper :: "nat \<Rightarrow> nat list" where
  "sample_upper c =
     (if 0x61 \<le> c \<and> c \<le> 0x7A then [c - 0x20]
      else if c = 0xDF then [0x53, 0x53]
      else if c = 0xE9 then [0xC9]
      else [c])"

text \<open>
  What the normalization needs of the upper-case mapping: white space maps to itself,
  any other code point maps to a non-empty sequence without white space, and mapping
  the result of a mapping again changes nothing.
\<close>

definition case_mapping :: "(nat \<Rightarrow> nat list) \<Rightarrow> bool" where
  "case_mapping up =
     ((\<forall>c. is_whitespace c \<longrightarrow> up c = [c])
      \<and> (\<forall>c. \<not> is_whitespace c \<longrightarrow> up c \<noteq> [] \<and> list_all (\<lambda>d. \<not> is_whitespace d) (up c))
      \<and> (\<forall>c. toUpperCase up (up c) = up c))"

section \<open>Key generation from a brain key\<close>

text \<open>
  \<^verbatim>\<open>KeyPrivate.fromBrainKey\<close> and \<^verbatim>\<open>KeyPublic.fromPrivateKey\<close> (module \<^verbatim>\<open>model/utils\<close>)
  are parameters.
\<close>

record ('priv, 'pub) keygen =
  KeyPrivate_fromBrainKey :: "js_string \<Rightarrow> nat \<Rightarrow> string + 'priv"
  KeyPublic_fromPrivateKey :: "'priv \<Rightarrow> string + 'pub"

text \<open>\<^verbatim>\<open>Utils.derivePrivateKey\<close>: the brain key is used as given.\<close>

definition derivePrivateKey :: "('priv, 'pub) keygen \<Rightarrow> js_string \<Rightarrow> nat \<Rightarrow> error + 'priv" where
  "derivePrivateKey K brainKey sequence =
     (case KeyPrivate_fromBrainKey K brainKey sequence of
        Inl msg \<Rightarrow> Inl (Thrown msg)
      | Inr k \<Rightarrow> Inr k)"

text \<open>
  Modelled from the spec: the declaration of \<^verbatim>\<open>KeyPrivate.fromBrainKey\<close> with its default
  for the omitted sequence argument is missing; the call with the brain key alone derives
  at sequence 0, the primary key.
\<close>

definition fromBrainKey_default :: "('priv, 'pub) keygen \<Rightarrow> js_string \<Rightarrow> string + 'priv" where
  "fromBrainKey_default K brainKey = KeyPrivate_fromBrainKey K brainKey 0"

text \<open>
  \<^verbatim>\<open>Utils.generateKeys\<close>; \<open>up\<close> is the upper-case mapping that \<^verbatim>\<open>Utils.normalize\<close> uses.
\<close>

definition generateKeys ::
  "(nat \<Rightarrow> nat list) \<Rightarrow> ('priv, 'pub) keygen \<Rightarrow> js_string \<Rightarrow> error + ('priv \<times> 'pub)" where
  "generateKeys up K fromBrainKey =
     (let normalizedBk = normalize_bk up fromBrainKey in
      case fromBrainKey_default K normalizedBk of
        Inl msg \<Rightarrow> Inl (Thrown msg)
      | Inr pkey \<Rightarrow>
          (case KeyPublic_fromPrivateKey K pkey of
             Inl msg \<Rightarrow> Inl (Thrown msg)
           | Inr pubKey \<Rightarrow> Inr (pkey, pubKey)))"

definition sample_keygen :: "(nat, nat) keygen" where
  "sample_keygen =
     \<lparr> KeyPrivate_fromBrainKey = (\<lambda>bk n. if bk = [] then Inl ''empty brain key'' else Inr (length bk + n)),
       KeyPublic_fromPrivateKey = (\<lambda>k. Inr (2 * k)) \<rparr>"

section \<open>El Gamal keys\<close>

text \<open>
  The big-integer package, \<^verbatim>\<open>sha512\<close> and the raw scalar of a private key are
  dependencies; they are parameters.  \<open>BigInteger_parse\<close> is \<^verbatim>\<open>BigInteger(text)\<close>,
  \<open>BigInteger_parse16\<close> is \<^verbatim>\<open>BigInteger(text, 16)\<close>.
\<close>

record 'priv bigint =
  BigInteger_parse :: "string \<Rightarrow> string + int"
  BigInteger_parse16 :: "string \<Rightarrow> string + int"
  BigInteger_toString :: "int \<Rightarrow> string"
  key_d_toBuffer :: "'priv \<Rightarrow> string + string"
  sha512 :: "string \<Rightarrow> string + string"

definition elGamal_modulus :: int where
  "elGamal_modulus =
     11760620558671662461946567396662025495126946227619472274601251081547302009186313201119191293557856181195016058359990840577430081932807832465057884143546419"

definition elGamal_generator :: int where
  "elGamal_generator = 3"

text \<open>
  Modelled from the spec: \<^verbatim>\<open>modInv\<close> of the big-integer package is missing; it is the
  inverse modulo a positive modulus, found by the extended Euclidean algorithm, and it
  throws when the two numbers are not co-prime.
\<close>

function modInv_loop :: "int \<Rightarrow> int \<Rightarrow> int \<Rightarrow> int \<Rightarrow> int \<times> int" where
  "modInv_loop t newT r newR =
     (if newR = 0 then (t, r)
      else modInv_loop newT (t - (r div newR) * newT) newR (r - (r div newR) * newR))"
  by pat_completeness auto
termination
proof (relation "measure (\<lambda>(t, newT, r, newR). nat \<bar>newR\<bar>)")
  show "wf (measure (\<lambda>(t, newT, r, newR). nat \<bar>newR\<bar>))" by simp
next
  fix t newT r newR :: int
  assume "newR \<noteq> 0"
  then have "\<bar>r mod newR\<bar> < \<bar>newR\<bar>" by (rule abs_mod_less)
  moreover have "r - (r div newR) * newR = r mod newR"
    by (simp add: minus_div_mult_eq_mod)
  ultimately show "((newT, t - (r div newR) * newT, newR, r - (r div newR) * newR),
                    (t, newT, r, newR)) \<in> measure (\<lambda>(t, newT, r, newR). nat \<bar>newR\<bar>)"
    by simp
qed

declare modInv_loop.simps [simp del]

definition modInv :: "int \<Rightarrow> int \<Rightarrow> string + int" where
  "modInv a n =
     (case modInv_loop 0 1 n \<bar>a\<bar> of
        (t, r) \<Rightarrow>
          if r \<noteq> 1 then Inl ''not co-prime''
          else
            (let t' = (if t < 0 then t + n else t)
             in if a < 0 then Inr (- t') else Inr t'))"

text \<open>
  Modelled from the spec: \<^verbatim>\<open>modPow\<close> of the big-integer package is missing; it is modular
  exponentiation.  A zero modulus throws; for a negative exponent the inverse of the base
  is raised to the absolute value of the exponent.
\<close>

definition modPow :: "int \<Rightarrow> int \<Rightarrow> int \<Rightarrow> string + int" where
  "modPow b e m =
     (if m = 0 then Inl ''Cannot take modPow with modulus 0''
      else if 0 \<le> e then Inr (b ^ nat e mod m)
      else
        (case modInv (b mod m) m of
           Inl msg \<Rightarrow> Inl msg
         | Inr i \<Rightarrow> Inr (i ^ nat (- e) mod m)))"

text \<open>\<^verbatim>\<open>Utils.elGamalPublic\<close>: no handler around the parser or the exponentiation.\<close>

definition elGamalPublic :: "'priv bigint \<Rightarrow> string \<Rightarrow> error + string" where
  "elGamalPublic B elGamalPrivate =
     (case BigInteger_parse B elGamalPrivate of
        Inl msg \<Rightarrow> Inl (Thrown msg)
      | Inr elgPriv \<Rightarrow>
          (case modPow elGamal_generator elgPriv elGamal_modulus of
             Inl msg \<Rightarrow> Inl (Thrown msg)
           | Inr v \<Rightarrow> Inr (BigInteger_toString B v)))"

text \<open>
  \<^verbatim>\<open>Utils.elGamalPrivate\<close>: the whole pipeline runs inside one \<^verbatim>\<open>try\<close>, whose handler
  replaces every exception by \<open>wrong_private_key\<close>.
\<close>

definition elGamalPrivate ::
  "('priv, 'pub, 'buf) crypto \<Rightarrow> 'priv bigint \<Rightarrow> string \<Rightarrow> error + string" where
  "elGamalPrivate L B privateKeyWif =
     (case privateKeyFromWif L privateKeyWif of
        Inl exception \<Rightarrow> Inl wrong_private_key
      | Inr pKey \<Rightarrow>
          (case key_d_toBuffer B pKey of
             Inl exception \<Rightarrow> Inl wrong_private_key
           | Inr buffer \<Rightarrow>
               (case sha512 B buffer of
                  Inl exception \<Rightarrow> Inl wrong_private_key
                | Inr hash \<Rightarrow>
                    (case BigInteger_parse16 B hash of
                       Inl exception \<Rightarrow> Inl wrong_private_key
                     | Inr h \<Rightarrow> Inr (BigInteger_toString B h)))))"

text \<open>
  A sample instance of these parameters, used to run the derivations on concrete inputs:
  a non-empty string of decimal (or, in base 16, hexadecimal) digits parses to its value,
  anything else is refused; the scalar of a sample key is rendered in decimal, and the
  digest is a stand-in that returns its input.
\<close>

definition digit_value :: "char \<Rightarrow> int" where
  "digit_value c = int (of_char c) - 48"

definition is_digit :: "char \<Rightarrow> bool" where
  "is_digit c = (48 \<le> (of_char c :: nat) \<and> (of_char c :: nat) \<le> 57)"

definition sample_parse :: "string \<Rightarrow> string + int" where
  "sample_parse s =
     (if s \<noteq> [] \<and> list_all is_digit s then Inr (foldl (\<lambda>a c. 10 * a + digit_value c) 0 s)
      else Inl (''Invalid integer: '' @ s))"

definition is_hex_digit :: "char \<Rightarrow> bool" where
  "is_hex_digit c = (is_digit c \<or> (97 \<le> (of_char c :: nat) \<and> (of_char c :: nat) \<le> 102))"

definition hex_value :: "char \<Rightarrow> int" where
  "hex_value c = (if is_digit c then digit_value c else int (of_char c) - 87)"

definition sample_parse16 :: "string \<Rightarrow> string + int" where
  "sample_parse16 s =
     (if s \<noteq> [] \<and> list_all is_hex_digit s then Inr (foldl (\<lambda>a c. 16 * a + hex_value c) 0 s)
      else Inl (''Invalid integer: '' @ s))"

fun decimal :: "nat \<Rightarrow> string" where
  "decimal n = (if n < 10 then [char_of (48 + n)] else decimal (n div 10) @ [char_of (48 + n mod 10)])"

declare decimal.simps [simp del]

definition sample_bigint :: "nat bigint" where
  "sample_bigint =
     \<lparr> BigInteger_parse = sample_parse,
       BigInteger_parse16 = sample_parse16,
       BigInteger_toString = (\<lambda>i. decimal (nat i)),
       key_d_toBuffer = (\<lambda>k. Inr (decimal k)),
       sha512 = (\<lambda>b. Inr b) \<rparr>"

section \<open>The memo cipher\<close>

text \<open>
  \<^verbatim>\<open>CryptoUtils.encryptWithChecksum\<close> and \<^verbatim>\<open>CryptoUtils.decryptWithChecksum\<close> (module
  \<^verbatim>\<open>crypt\<close>) are modelled from the specification of the shared-secret memo cipher: a
  Diffie-Hellman shared secret is mixed with the nonce into a symmetric key, and the
  payload \<open>checksum || plaintext\<close> is encrypted under that key.
\<close>

text \<open>
  Modelled from the spec: the group of the signing curve is missing; it is any group
  written additively, and multiplying a point by a scalar is repeated addition.
\<close>

fun scalar_mult :: "nat \<Rightarrow> 'g::monoid_add \<Rightarrow> 'g" where
  "scalar_mult 0 P = 0"
| "scalar_mult (Suc n) P = P + scalar_mult n P"

text \<open>
  Modelled from the spec: the computation of a public key from a private key is missing;
  a private key is a scalar and its public key is the base point multiplied by it.
\<close>

definition public_of :: "'g::monoid_add \<Rightarrow> nat \<Rightarrow> 'g" where
  "public_of G priv = scalar_mult priv G"

text \<open>
  Modelled from the spec: the shared-secret computation is missing; the local private key
  is combined with the remote public key, by multiplying the point by the scalar.
\<close>

definition shared_secret :: "nat \<Rightarrow> 'g::monoid_add \<Rightarrow> 'g" where
  "shared_secret priv pub = scalar_mult priv pub"

text \<open>
  Modelled from the spec: the primitives the cipher is built from are missing; they are
  parameters.  \<open>mix\<close> derives the symmetric key from the shared secret and the nonce,
  \<open>sym_encrypt\<close> and \<open>sym_decrypt\<close> are the symmetric cipher, \<open>digest\<close> is the hash the
  checksum is cut from, \<open>checksum_length\<close> the number of leading checksum bytes.
\<close>

record ('g, 'k) primitives =
  base_point :: 'g
  mix :: "'g \<Rightarrow> string \<Rightarrow> 'k"
  sym_encrypt :: "'k \<Rightarrow> string \<Rightarrow> string"
  sym_decrypt :: "'k \<Rightarrow> string \<Rightarrow> string + string"
  digest :: "string \<Rightarrow> string"
  checksum_length :: nat

datatype cipher_error = DecryptionFailed

text \<open>
  Modelled from the spec: the checksum function is missing; it is a short integrity
  checksum derived from the plaintext.
\<close>

definition checksum :: "('g, 'k) primitives \<Rightarrow> string \<Rightarrow> string" where
  "checksum C plaintext = take (checksum_length C) (digest C plaintext)"

text \<open>
  Modelled from the spec: \<^verbatim>\<open>CryptoUtils.encryptWithChecksum\<close> is missing; the checksum is
  put in front of the plaintext and the result is encrypted under the key derived from
  the shared secret and the nonce.
\<close>

definition encryptWithChecksum ::
  "('g::monoid_add, 'k) primitives \<Rightarrow> string \<Rightarrow> nat \<Rightarrow> 'g \<Rightarrow> string \<Rightarrow> string" where
  "encryptWithChecksum C plaintext senderPrivateKey recipientPublicKey nonce =
     sym_encrypt C (mix C (shared_secret senderPrivateKey recipientPublicKey) nonce)
       (checksum C plaintext @ plaintext)"

text \<open>
  Modelled from the spec: \<^verbatim>\<open>CryptoUtils.decryptWithChecksum\<close> is missing; the ciphertext
  is decrypted, the checksum is computed again over the trailing bytes and compared
  with the leading checksum; an exception of the symmetric cipher and a mismatch both
  give \<open>DecryptionFailed\<close>.
\<close>

definition decryptWithChecksum ::
  "('g::monoid_add, 'k) primitives \<Rightarrow> string \<Rightarrow> nat \<Rightarrow> 'g \<Rightarrow> string \<Rightarrow> cipher_error + string" where
  "decryptWithChecksum C ciphertext receiverPrivateKey counterpartyPublicKey nonce =
     (case sym_decrypt C (mix C (shared_secret receiverPrivateKey counterpartyPublicKey) nonce)
             ciphertext of
        Inl exception \<Rightarrow> Inl DecryptionFailed
      | Inr payload \<Rightarrow>
          (let leading = take (checksum_length C) payload;
               trailing = drop (checksum_length C) payload
           in if checksum C trailing = leading then Inr trailing else Inl DecryptionFailed))"

text \<open>
  A sample instance of the primitives, used to run the cipher on concrete inputs: the
  group is the integers under addition, the symmetric key is the pair of secret and
  nonce, and a ciphertext carries the nonce in front of the reversed payload.
\<close>

definition sample_primitives :: "(int, int \<times> string) primitives" where
  "sample_primitives =
     \<lparr> base_point = 5,
       mix = (\<lambda>S n. (S, n)),
       sym_encrypt = (\<lambda>k x. decimal (nat (fst k)) @ snd k @ rev x),
       sym_decrypt = (\<lambda>k c.
          if take (length (decimal (nat (fst k)) @ snd k)) c = decimal (nat (fst k)) @ snd k
          then Inr (rev (drop (length (decimal (nat (fst k)) @ snd k)) c))
          else Inl ''wrong key''),
       digest = (\<lambda>x. take 4 (x @ ''0000'')),
       checksum_length = 4 \<rparr>"

section \<open>Properties of the scan\<close>

lemma scan_step_fail:
  "\<not> succeeds L m pubKey pk \<Longrightarrow> scan_step L m pubKey d pk = d"
  by (simp add: succeeds_def scan_step_def split: sum.splits)

lemma scan_step_success:
  "attempt L m pubKey pk = Inr p \<Longrightarrow> scan_step L m pubKey d pk = p"
  by (simp add: scan_step_def)

lemma foldl_scan_all_fail:
  "list_all (\<lambda>pk. \<not> succeeds L m pubKey pk) ks \<Longrightarrow> foldl (scan_step L m pubKey) d ks = d"
  by (induction ks arbitrary: d) (simp_all add: scan_step_fail)

lemma foldl_scan_last_success:
  assumes "attempt L m pubKey k = Inr p"
    and "list_all (\<lambda>pk. \<not> succeeds L m pubKey pk) post"
  shows "foldl (scan_step L m pubKey) d (pre @ k # post) = p"
  using assms by (simp add: scan_step_success foldl_scan_all_fail)

lemma foldl_scan_drop_failed:
  assumes "\<not> succeeds L m pubKey k"
  shows "foldl (scan_step L m pubKey) d (pre @ k # post) = foldl (scan_step L m pubKey) d (pre @ post)"
  using assms by (simp add: scan_step_fail)

lemmas sample_defs =
  sample_crypto_def sample_memo_def sample_fromWif_def sample_fromString_def sample_decrypt_def
  decryptedMessage_def publicKeyFromString_def privateKeyFromWif_def attempt_def scan_step_def
  succeeds_def

text \<open>
  C1.  For a valid envelope whose recipient key decodes, the scan runs over the whole
  candidate list: if a candidate decrypts to \<open>p\<close> and no candidate after it decrypts,
  the result is \<open>p\<close>, whatever the candidates before it did.  So with two or more
  successful candidates the plaintext of the last one in list order is returned.
\<close>

theorem decryptedMessage_last_success:
  assumes "valid m"
    and "publicKeyFromString L (memo_to m) = Inr pubKey"
    and "attempt L m pubKey k = Inr p"
    and "list_all (\<lambda>pk. \<not> succeeds L m pubKey pk) post"
  shows "decryptedMessage L m (pre @ k # post) = Inr p"
proof -
  have "foldl (scan_step L m pubKey) '''' (pre @ k # post) = p"
    using assms(3,4) by (rule foldl_scan_last_success)
  with assms(1,2) show ?thesis
    unfolding decryptedMessage_def by simp
qed

theorem decryptedMessage_last_success_witness:
  "valid sample_memo
   \<and> publicKeyFromString sample_crypto (memo_to sample_memo) = Inr 7
   \<and> attempt sample_crypto sample_memo 7 ''k1'' = Inr ''one''
   \<and> attempt sample_crypto sample_memo 7 ''k2'' = Inr ''two''
   \<and> list_all (\<lambda>pk. \<not> succeeds sample_crypto sample_memo 7 pk) [''zz'', ''k3'']
   \<and> decryptedMessage sample_crypto sample_memo [''k1'', ''k2'', ''zz'', ''k3''] = Inr ''two''"
proof -
  have v: "valid sample_memo" by (simp add: sample_defs)
  have t: "publicKeyFromString sample_crypto (memo_to sample_memo) = Inr 7"
    by (simp add: sample_defs)
  have a1: "attempt sample_crypto sample_memo 7 ''k1'' = Inr ''one''" by (simp add: sample_defs)
  have a2: "attempt sample_crypto sample_memo 7 ''k2'' = Inr ''two''" by (simp add: sample_defs)
  have f: "list_all (\<lambda>pk. \<not> succeeds sample_crypto sample_memo 7 pk) [''zz'', ''k3'']"
    by (simp add: sample_defs)
  from decryptedMessage_last_success [OF v t a2 f, of "[''k1'']"] v t a1 a2 f
  show ?thesis by simp
qed


lemma foldl_scan_cases:
  "(list_all (\<lambda>pk. \<not> succeeds L m pubKey pk) ks \<and> foldl (scan_step L m pubKey) d ks = d)
   \<or> (\<exists>pre k post p. ks = pre @ k # post \<and> attempt L m pubKey k = Inr p
        \<and> list_all (\<lambda>pk. \<not> succeeds L m pubKey pk) post
        \<and> foldl (scan_step L m pubKey) d ks = p)"
proof (induction ks rule: rev_induct)
  case Nil
  then show ?case by simp
next
  case (snoc x xs)
  show ?case
  proof (cases "attempt L m pubKey x")
    case (Inr p)
    then have "xs @ [x] = xs @ x # [] \<and> attempt L m pubKey x = Inr p
        \<and> list_all (\<lambda>pk. \<not> succeeds L m pubKey pk) []
        \<and> foldl (scan_step L m pubKey) d (xs @ [x]) = p"
      by (simp add: scan_step_success)
    then show ?thesis by blast
  next
    case (Inl e)
    then have nx: "\<not> succeeds L m pubKey x" by (simp add: succeeds_def)
    from snoc.IH show ?thesis
    proof
      assume "list_all (\<lambda>pk. \<not> succeeds L m pubKey pk) xs \<and> foldl (scan_step L m pubKey) d xs = d"
      with nx show ?thesis by (simp add: scan_step_fail)
    next
      assume "\<exists>pre k post p. xs = pre @ k # post \<and> attempt L m pubKey k = Inr p
        \<and> list_all (\<lambda>pk. \<not> succeeds L m pubKey pk) post
        \<and> foldl (scan_step L m pubKey) d xs = p"
      then obtain pre k post p where h: "xs = pre @ k # post" "attempt L m pubKey k = Inr p"
        "list_all (\<lambda>pk. \<not> succeeds L m pubKey pk) post" "foldl (scan_step L m pubKey) d xs = p"
        by blast
      from h nx have "xs @ [x] = pre @ k # (post @ [x]) \<and> attempt L m pubKey k = Inr p
        \<and> list_all (\<lambda>pk. \<not> succeeds L m pubKey pk) (post @ [x])
        \<and> foldl (scan_step L m pubKey) d (xs @ [x]) = p"
        by (simp add: scan_step_fail)
      then show ?thesis by blast
    qed
  qed
qed

lemma attempt_error_kinds:
  "attempt L m pubKey pk = Inl e \<Longrightarrow> e = wrong_private_key \<or> e = account_keys_incorrect"
  by (auto simp: attempt_def privateKeyFromWif_def split: sum.splits)

lemma succeeds_iff:
  "succeeds L m pubKey pk \<longleftrightarrow>
     (\<exists>pKey buf. KeyPrivate_fromWif L pk = Inr pKey
        \<and> CryptoUtils_decryptWithChecksum L (memo_message m) pKey pubKey (memo_nonce m) = Inr buf)"
  by (auto simp: succeeds_def attempt_def privateKeyFromWif_def split: sum.splits)

text \<open>
  C4.  For a valid envelope whose recipient key decodes, a candidate that fails, whether
  its wire string does not decode or the decryption under it fails, has no effect on
  the scan: the result is the one of the list without that candidate, a failure at the
  end of the list leaves the result of the candidates before it, and the scan returns a
  string rather than raising.
\<close>
theorem decryptedMessage_absorbs_failures:
  assumes "valid m"
    and "publicKeyFromString L (memo_to m) = Inr pubKey"
    and "\<not> succeeds L m pubKey k"
  shows "decryptedMessage L m (pre @ k # post) = decryptedMessage L m (pre @ post)
       \<and> decryptedMessage L m (pre @ [k]) = decryptedMessage L m pre
       \<and> (\<exists>s. decryptedMessage L m (pre @ k # post) = Inr s)"
proof -
  have "foldl (scan_step L m pubKey) '''' (pre @ k # post) = foldl (scan_step L m pubKey) '''' (pre @ post)"
    using assms(3) by (rule foldl_scan_drop_failed)
  moreover have "foldl (scan_step L m pubKey) '''' (pre @ k # []) = foldl (scan_step L m pubKey) '''' (pre @ [])"
    using assms(3) by (rule foldl_scan_drop_failed)
  ultimately show ?thesis using assms(1,2)
    unfolding decryptedMessage_def by simp
qed

theorem decryptedMessage_absorbs_failures_witness:
  "valid sample_memo
   \<and> publicKeyFromString sample_crypto (memo_to sample_memo) = Inr 7
   \<and> KeyPrivate_fromWif sample_crypto ''zz'' = Inl ''bad wif''
   \<and> \<not> succeeds sample_crypto sample_memo 7 ''zz''
   \<and> decryptedMessage sample_crypto sample_memo [''k1'', ''zz'', ''k3''] = Inr ''one''
   \<and> decryptedMessage sample_crypto sample_memo [''k1'', ''zz''] = Inr ''one''"
proof -
  have v: "valid sample_memo" by (simp add: sample_defs)
  have t: "publicKeyFromString sample_crypto (memo_to sample_memo) = Inr 7"
    by (simp add: sample_defs)
  have f: "\<not> succeeds sample_crypto sample_memo 7 ''zz''" by (simp add: sample_defs)
  have w: "KeyPrivate_fromWif sample_crypto ''zz'' = Inl ''bad wif''" by (simp add: sample_defs)
  have r: "decryptedMessage sample_crypto sample_memo [''k1'', ''k3''] = Inr ''one''"
    by (simp add: sample_defs)
  have r1: "decryptedMessage sample_crypto sample_memo [''k1''] = Inr ''one''"
    by (simp add: sample_defs)
  from decryptedMessage_absorbs_failures [OF v t f, of "[''k1'']" "[''k3'']"] r r1 v t f w
  show ?thesis by simp
qed

text \<open>
  C5 (amended).  An envelope that is not valid gives the empty string without raising,
  whatever its recipient field and the candidates are.  For a valid envelope whose
  recipient key decodes, the result is the empty string exactly when no candidate
  succeeds (the empty list included) or the last successful candidate decrypts to the
  empty plaintext.
\<close>
theorem decryptedMessage_empty_cases:
  "(\<not> valid m \<longrightarrow> decryptedMessage L m ks = Inr '''')
   \<and> (valid m \<and> publicKeyFromString L (memo_to m) = Inr pubKey \<longrightarrow>
        (decryptedMessage L m ks = Inr '''' \<longleftrightarrow>
           list_all (\<lambda>pk. \<not> succeeds L m pubKey pk) ks
           \<or> (\<exists>pre k post. ks = pre @ k # post \<and> attempt L m pubKey k = Inr ''''
                \<and> list_all (\<lambda>pk. \<not> succeeds L m pubKey pk) post)))"
proof (intro conjI impI)
  assume "\<not> valid m"
  then show "decryptedMessage L m ks = Inr ''''" by (simp add: decryptedMessage_def)
next
  assume a: "valid m \<and> publicKeyFromString L (memo_to m) = Inr pubKey"
  then have dm: "decryptedMessage L m ks = Inr (foldl (scan_step L m pubKey) '''' ks)"
    by (simp add: decryptedMessage_def)
  show "decryptedMessage L m ks = Inr '''' \<longleftrightarrow>
           list_all (\<lambda>pk. \<not> succeeds L m pubKey pk) ks
           \<or> (\<exists>pre k post. ks = pre @ k # post \<and> attempt L m pubKey k = Inr ''''
                \<and> list_all (\<lambda>pk. \<not> succeeds L m pubKey pk) post)"
  proof
    assume "decryptedMessage L m ks = Inr ''''"
    with dm have e: "foldl (scan_step L m pubKey) '''' ks = ''''" by simp
    from foldl_scan_cases [of L m pubKey ks "''''"] e
    show "list_all (\<lambda>pk. \<not> succeeds L m pubKey pk) ks
           \<or> (\<exists>pre k post. ks = pre @ k # post \<and> attempt L m pubKey k = Inr ''''
                \<and> list_all (\<lambda>pk. \<not> succeeds L m pubKey pk) post)"
      by auto
  next
    assume "list_all (\<lambda>pk. \<not> succeeds L m pubKey pk) ks
           \<or> (\<exists>pre k post. ks = pre @ k # post \<and> attempt L m pubKey k = Inr ''''
                \<and> list_all (\<lambda>pk. \<not> succeeds L m pubKey pk) post)"
    then show "decryptedMessage L m ks = Inr ''''"
    proof
      assume "list_all (\<lambda>pk. \<not> succeeds L m pubKey pk) ks"
      then show ?thesis using dm by (simp add: foldl_scan_all_fail)
    next
      assume "\<exists>pre k post. ks = pre @ k # post \<and> attempt L m pubKey k = Inr ''''
                \<and> list_all (\<lambda>pk. \<not> succeeds L m pubKey pk) post"
      then obtain pre k post where h: "ks = pre @ k # post" "attempt L m pubKey k = Inr ''''"
        "list_all (\<lambda>pk. \<not> succeeds L m pubKey pk) post" by blast
      have "foldl (scan_step L m pubKey) '''' (pre @ k # post) = ''''"
        using h(2,3) by (rule foldl_scan_last_success)
      with dm h(1) show ?thesis by simp
    qed
  qed
qed

text \<open>
  The empty string is also returned after a successful decryption, when the plaintext
  itself is empty.
\<close>
theorem decryptedMessage_empty_counterexample:
  "valid empty_memo
   \<and> publicKeyFromString sample_crypto (memo_to empty_memo) = Inr 7
   \<and> succeeds sample_crypto empty_memo 7 ''k3''
   \<and> decryptedMessage sample_crypto empty_memo [''k3''] = Inr ''''"
  by (simp add: sample_defs empty_memo_def)

theorem decryptedMessage_empty_cases_witness:
  "\<not> valid (sample_memo\<lparr>valid := False, memo_to := ''junk''\<rparr>)
   \<and> decryptedMessage sample_crypto (sample_memo\<lparr>valid := False, memo_to := ''junk''\<rparr>) [''k1''] = Inr ''''
   \<and> valid sample_memo
   \<and> publicKeyFromString sample_crypto (memo_to sample_memo) = Inr 7
   \<and> list_all (\<lambda>pk. \<not> succeeds sample_crypto sample_memo 7 pk) [''zz'', ''k3'']
   \<and> decryptedMessage sample_crypto sample_memo [''zz'', ''k3''] = Inr ''''
   \<and> decryptedMessage sample_crypto sample_memo [] = Inr ''''"
proof -
  have i: "\<not> valid (sample_memo\<lparr>valid := False, memo_to := ''junk''\<rparr>)" by (simp add: sample_defs)
  have v: "valid sample_memo" by (simp add: sample_defs)
  have t: "publicKeyFromString sample_crypto (memo_to sample_memo) = Inr 7"
    by (simp add: sample_defs)
  have f: "list_all (\<lambda>pk. \<not> succeeds sample_crypto sample_memo 7 pk) [''zz'', ''k3'']"
    by (simp add: sample_defs)
  have f0: "list_all (\<lambda>pk. \<not> succeeds sample_crypto sample_memo 7 pk) []" by simp
  from decryptedMessage_empty_cases [of "sample_memo\<lparr>valid := False, memo_to := ''junk''\<rparr>" sample_crypto "[''k1'']" 7]
    decryptedMessage_empty_cases [of sample_memo sample_crypto "[''zz'', ''k3'']" 7]
    decryptedMessage_empty_cases [of sample_memo sample_crypto "[]" 7]
    i v t f f0
  show ?thesis by blast
qed

text \<open>
  C10 (amended).  The recipient key is decoded once, before the candidate loop and
  outside the handlers: an exception leaves \<open>decryptedMessage\<close> exactly when the
  envelope is valid and the decoder itself throws, and it is then the decoder's
  exception, whatever the candidate list is.  When the decoder returns, also for a
  recipient that is not a public key, nothing is raised, and the result is the empty
  string if no candidate decrypts.
\<close>

theorem decryptedMessage_raises_iff_decoder_raises:
  "(decryptedMessage L m ks = Inl e \<longleftrightarrow>
      valid m \<and> (\<exists>msg. KeyPublic_fromString L (memo_to m) = Inl msg \<and> e = Thrown msg))
   \<and> (valid m \<and> KeyPublic_fromString L (memo_to m) = Inr pubKey
        \<and> list_all (\<lambda>pk. \<not> succeeds L m pubKey pk) ks
      \<longrightarrow> decryptedMessage L m ks = Inr '''')"
proof (intro conjI impI)
  show "decryptedMessage L m ks = Inl e \<longleftrightarrow>
      valid m \<and> (\<exists>msg. KeyPublic_fromString L (memo_to m) = Inl msg \<and> e = Thrown msg)"
    by (auto simp: decryptedMessage_def publicKeyFromString_def split: sum.splits)
next
  assume a: "valid m \<and> KeyPublic_fromString L (memo_to m) = Inr pubKey
        \<and> list_all (\<lambda>pk. \<not> succeeds L m pubKey pk) ks"
  then have "foldl (scan_step L m pubKey) '''' ks = ''''"
    by (simp add: foldl_scan_all_fail)
  with a show "decryptedMessage L m ks = Inr ''''"
    by (simp add: decryptedMessage_def publicKeyFromString_def)
qed

theorem decryptedMessage_raises_iff_decoder_raises_witness:
  "valid junk_memo
   \<and> KeyPublic_fromString sample_crypto (memo_to junk_memo) = Inl ''bad public key''
   \<and> decryptedMessage sample_crypto junk_memo [] = Inl (Thrown ''bad public key'')
   \<and> decryptedMessage sample_crypto junk_memo [''k1'', ''k2''] = Inl (Thrown ''bad public key'')
   \<and> KeyPublic_fromString lenient_crypto (memo_to junk_memo) = Inr None
   \<and> list_all (\<lambda>pk. \<not> succeeds lenient_crypto junk_memo None pk) [''k1'', ''k2'']
   \<and> decryptedMessage lenient_crypto junk_memo [''k1'', ''k2''] = Inr ''''"
proof -
  have v: "valid junk_memo" by (simp add: junk_memo_def sample_defs)
  have d: "KeyPublic_fromString sample_crypto (memo_to junk_memo) = Inl ''bad public key''"
    by (simp add: junk_memo_def sample_defs)
  have l: "KeyPublic_fromString lenient_crypto (memo_to junk_memo) = Inr None"
    by (simp add: junk_memo_def lenient_crypto_def lenient_fromString_def sample_defs)
  have f: "list_all (\<lambda>pk. \<not> succeeds lenient_crypto junk_memo None pk) [''k1'', ''k2'']"
    by (simp add: junk_memo_def lenient_crypto_def lenient_decrypt_def sample_defs)
  from decryptedMessage_raises_iff_decoder_raises
         [of sample_crypto junk_memo "[]" "Thrown ''bad public key''"] v d
  have r0: "decryptedMessage sample_crypto junk_memo [] = Inl (Thrown ''bad public key'')"
    by blast
  from decryptedMessage_raises_iff_decoder_raises
         [of sample_crypto junk_memo "[''k1'', ''k2'']" "Thrown ''bad public key''"] v d
  have r2: "decryptedMessage sample_crypto junk_memo [''k1'', ''k2''] = Inl (Thrown ''bad public key'')"
    by blast
  from decryptedMessage_raises_iff_decoder_raises
         [of lenient_crypto junk_memo "[''k1'', ''k2'']" _ None] v l f
  have r3: "decryptedMessage lenient_crypto junk_memo [''k1'', ''k2''] = Inr ''''"
    by blast
  from v d l f r0 r2 r3 show ?thesis by (simp only: simp_thms)
qed

text \<open>
  With a decoder that returns a key object for every string, a recipient that is not a
  public key raises nothing: the result is the empty string, for the empty candidate
  list and for candidates that would decrypt under the right recipient key.
\<close>

theorem decryptedMessage_recipient_decode_counterexample:
  "valid junk_memo
   \<and> KeyPublic_fromString lenient_crypto (memo_to junk_memo) = Inr None
   \<and> decryptedMessage lenient_crypto junk_memo [] = Inr ''''
   \<and> decryptedMessage lenient_crypto junk_memo [''k1'', ''k2''] = Inr ''''"
  by (simp add: junk_memo_def lenient_crypto_def lenient_fromString_def lenient_decrypt_def
        sample_defs)

section \<open>Properties of the memo cipher\<close>

lemma scalar_mult_add: "scalar_mult (a + b) P = scalar_mult a P + scalar_mult b P"
  by (induction a) (simp_all add: add.assoc)

lemma scalar_mult_mult: "scalar_mult a (scalar_mult b P) = scalar_mult (b * a) P"
  by (induction a) (simp_all add: scalar_mult_add)

lemma shared_secret_commute:
  "shared_secret a (public_of G b) = shared_secret b (public_of G a)"
  by (simp add: shared_secret_def public_of_def scalar_mult_mult mult.commute)

text \<open>
  C3.  The shared secret of A's private key with B's public key equals the shared secret
  of B's private key with A's public key.
\<close>
theorem shared_secret_symmetric:
  "shared_secret privA (public_of G privB) = shared_secret privB (public_of G privA)"
  by (rule shared_secret_commute)

text \<open>
  C2.  With a symmetric cipher whose decryption inverts its encryption under the same
  key, and a digest at least as long as the checksum, decrypting with B's private key and
  A's public key what was encrypted with A's private key and B's public key, under the
  same nonce, returns the plaintext.
\<close>
theorem memo_round_trip:
  assumes "\<forall>k x. sym_decrypt C k (sym_encrypt C k x) = Inr x"
    and "\<forall>x. checksum_length C \<le> length (digest C x)"
  shows "decryptWithChecksum C (encryptWithChecksum C m privA (public_of (base_point C) privB) nonce)
           privB (public_of (base_point C) privA) nonce = Inr m"
proof -
  let ?k = "mix C (shared_secret privA (public_of (base_point C) privB)) nonce"
  have k: "mix C (shared_secret privB (public_of (base_point C) privA)) nonce = ?k"
    by (simp add: shared_secret_commute)
  have len: "length (checksum C m) = checksum_length C"
  proof -
    from assms(2) have "checksum_length C \<le> length (digest C m)" by blast
    then show ?thesis by (simp add: checksum_def)
  qed
  have "sym_decrypt C ?k (sym_encrypt C ?k (checksum C m @ m)) = Inr (checksum C m @ m)"
    using assms(1) by blast
  then show ?thesis
    unfolding decryptWithChecksum_def encryptWithChecksum_def k using len by simp
qed



theorem memo_round_trip_witness:
  "(\<forall>k x. sym_decrypt sample_primitives k (sym_encrypt sample_primitives k x) = Inr x)
   \<and> (\<forall>x. checksum_length sample_primitives \<le> length (digest sample_primitives x))
   \<and> encryptWithChecksum sample_primitives ''hello'' 2 (public_of (base_point sample_primitives) 3) ''1''
       = ''301ollehlleh''
   \<and> decryptWithChecksum sample_primitives
         (encryptWithChecksum sample_primitives ''hello'' 2 (public_of (base_point sample_primitives) 3) ''1'')
         3 (public_of (base_point sample_primitives) 2) ''1'' = Inr ''hello''"
proof -
  have s: "\<forall>k x. sym_decrypt sample_primitives k (sym_encrypt sample_primitives k x) = Inr x"
    by (simp add: sample_primitives_def)
  have d: "\<forall>x. checksum_length sample_primitives \<le> length (digest sample_primitives x)"
    by (simp add: sample_primitives_def min_def)
  have c: "encryptWithChecksum sample_primitives ''hello'' 2 (public_of (base_point sample_primitives) 3) ''1''
       = ''301ollehlleh''"
    by code_simp
  from memo_round_trip [OF s d, of "''hello''" 2 3 "''1''"] s d c
  show ?thesis by simp
qed

section \<open>Properties of the El Gamal derivations\<close>




text \<open>
  C7.  \<open>elGamalPublic\<close> never raises \<open>wrong_private_key\<close>: what the parser throws on its
  input leaves the function as it is, and an input read as zero gives the key 1.
  \<open>elGamalPrivate\<close>, beside it, raises nothing but \<open>wrong_private_key\<close>.
\<close>

theorem elGamalPublic_error_not_normalized:
  "elGamalPublic B s \<noteq> Inl wrong_private_key
   \<and> (BigInteger_parse B s = Inl msg \<longrightarrow> elGamalPublic B s = Inl (Thrown msg))
   \<and> (BigInteger_parse B s = Inr 0 \<longrightarrow> elGamalPublic B s = Inr (BigInteger_toString B 1))
   \<and> (elGamalPrivate L B wif = Inl e \<longrightarrow> e = wrong_private_key)"
  by (auto simp: elGamalPublic_def elGamalPrivate_def modPow_def elGamal_modulus_def
           split: sum.splits)

theorem elGamalPublic_error_not_normalized_witness:
  "BigInteger_parse sample_bigint ''abc'' = Inl ''Invalid integer: abc''
   \<and> elGamalPublic sample_bigint ''abc'' = Inl (Thrown ''Invalid integer: abc'')
   \<and> BigInteger_parse sample_bigint ''0'' = Inr 0
   \<and> elGamalPublic sample_bigint ''0'' = Inr ''1''
   \<and> elGamalPrivate sample_crypto sample_bigint ''zz'' = Inl wrong_private_key
   \<and> elGamalPrivate sample_crypto sample_bigint ''k3'' = Inr ''3''"
proof -
  have k: "elGamalPrivate sample_crypto sample_bigint ''k3'' = Inr ''3''" by code_simp
  have p: "BigInteger_parse sample_bigint ''abc'' = Inl ''Invalid integer: abc''" by code_simp
  have z: "BigInteger_parse sample_bigint ''0'' = Inr 0" by code_simp
  have o: "BigInteger_toString sample_bigint 1 = ''1''" by code_simp
  have w: "elGamalPrivate sample_crypto sample_bigint ''zz'' = Inl wrong_private_key" by code_simp
  from elGamalPublic_error_not_normalized [of sample_bigint "''abc''" "''Invalid integer: abc''" sample_crypto "''zz''" wrong_private_key]
    elGamalPublic_error_not_normalized [of sample_bigint "''0''" "''x''" sample_crypto "''zz''" wrong_private_key]
    p z o w k
  show ?thesis by simp
qed

section \<open>Properties of normalization\<close>

subsection \<open>Collapsing runs\<close>

lemma collapse_append_no_sep:
  "list_all (\<lambda>c. \<not> P c) a \<Longrightarrow> collapse P (a @ b) = a @ collapse P b"
  by (induction a) simp_all

lemma join_Cons: "ys \<noteq> [] \<Longrightarrow> join d (x # ys) = x @ d @ join d ys"
  by (cases ys) simp_all

lemma list_all_takeWhile: "list_all P (takeWhile P s)"
  by (induction s) simp_all

lemma split_runs_no_rest:
  assumes "dropWhile (\<lambda>c. \<not> P c) s = []"
  shows "split_runs P s = [takeWhile (\<lambda>c. \<not> P c) s]"
proof -
  have "split_runs P s =
     (let piece = takeWhile (\<lambda>c. \<not> P c) s; rest = dropWhile (\<lambda>c. \<not> P c) s
      in if rest = [] then [piece] else piece # split_runs P (dropWhile P rest))"
    by (rule split_runs.simps)
  also have "\<dots> = [takeWhile (\<lambda>c. \<not> P c) s]"
    unfolding Let_def using assms by (rule if_P)
  finally show ?thesis .
qed

lemma split_runs_rest:
  assumes "dropWhile (\<lambda>c. \<not> P c) s \<noteq> []"
  shows "split_runs P s =
       takeWhile (\<lambda>c. \<not> P c) s # split_runs P (dropWhile P (dropWhile (\<lambda>c. \<not> P c) s))"
proof -
  have "split_runs P s =
     (let piece = takeWhile (\<lambda>c. \<not> P c) s; rest = dropWhile (\<lambda>c. \<not> P c) s
      in if rest = [] then [piece] else piece # split_runs P (dropWhile P rest))"
    by (rule split_runs.simps)
  also have "\<dots> = takeWhile (\<lambda>c. \<not> P c) s # split_runs P (dropWhile P (dropWhile (\<lambda>c. \<not> P c) s))"
    unfolding Let_def using assms by (rule if_not_P)
  finally show ?thesis .
qed

lemma split_runs_not_Nil: "split_runs P s \<noteq> []"
  using split_runs_no_rest [of P s] split_runs_rest [of P s] by (cases "dropWhile (\<lambda>c. \<not> P c) s = []") simp_all

lemma join_split_runs: "join [0x20] (split_runs P s) = collapse P s"
proof (induction P s rule: split_runs.induct)
  case (1 P s)
  let ?piece = "takeWhile (\<lambda>c. \<not> P c) s"
  let ?rest = "dropWhile (\<lambda>c. \<not> P c) s"
  have np: "list_all (\<lambda>c. \<not> P c) ?piece" by (rule list_all_takeWhile)
  show ?case
  proof (cases "?rest = []")
    case True
    then have sp: "split_runs P s = [?piece]" by (rule split_runs_no_rest)
    from True have ps: "?piece = s"
      by (metis takeWhile_dropWhile_id append_Nil2)
    have "collapse P (?piece @ []) = ?piece @ collapse P []"
      using np by (rule collapse_append_no_sep)
    then have "collapse P s = s" unfolding ps by simp
    with sp ps show ?thesis by simp
  next
    case False
    then obtain c cs where rc: "?rest = c # cs" by (meson neq_Nil_conv)
    from False have "\<not> \<not> P (hd ?rest)" by (rule hd_dropWhile)
    with rc have pc: "P c" by (metis list.sel(1))
    from False have sp: "split_runs P s = ?piece # split_runs P (dropWhile P ?rest)"
      by (rule split_runs_rest)
    have ih: "join [0x20] (split_runs P (dropWhile P ?rest)) = collapse P (dropWhile P ?rest)"
      by (rule "1.IH" [OF refl refl False])
    have "collapse P (?piece @ ?rest) = ?piece @ collapse P ?rest"
      using np by (rule collapse_append_no_sep)
    also have "collapse P ?rest = 0x20 # collapse P (dropWhile P cs)"
      unfolding rc using pc by simp
    also have "dropWhile P cs = dropWhile P ?rest"
      unfolding rc using pc by simp
    finally have "collapse P s = ?piece @ [0x20] @ collapse P (dropWhile P ?rest)"
      by simp
    with sp ih show ?thesis
      by (simp add: join_Cons split_runs_not_Nil)
  qed
qed

lemma normalize_bk_collapse:
  "normalize_bk up s = collapse is_separator (toUpperCase up (trim s))"
  by (simp add: normalize_bk_def join_split_runs)


subsection \<open>Trimming\<close>

lemma dropWhile_id: "s = [] \<or> \<not> P (hd s) \<Longrightarrow> dropWhile P s = s"
  by (cases s) auto

lemma last_dropWhile_eq: "dropWhile P s \<noteq> [] \<Longrightarrow> last (dropWhile P s) = last s"
  by (metis last_appendR takeWhile_dropWhile_id)

lemma trim_id:
  assumes "t = [] \<or> (\<not> is_whitespace (hd t) \<and> \<not> is_whitespace (last t))"
  shows "trim t = t"
proof (cases "t = []")
  case True
  then show ?thesis by (simp add: trim_def)
next
  case False
  with assms have h: "\<not> is_whitespace (hd t)" and l: "\<not> is_whitespace (last t)" by auto
  from h have 1: "dropWhile is_whitespace t = t" by (simp add: dropWhile_id)
  from False l have "\<not> is_whitespace (hd (rev t))" by (simp add: hd_rev)
  then have 2: "dropWhile is_whitespace (rev t) = rev t" by (simp add: dropWhile_id)
  show ?thesis by (simp add: trim_def 1 2)
qed

lemma trim_trimmed:
  "trim s = [] \<or> (\<not> is_whitespace (hd (trim s)) \<and> \<not> is_whitespace (last (trim s)))"
proof (cases "trim s = []")
  case True
  then show ?thesis by simp
next
  case False
  let ?u = "dropWhile is_whitespace s"
  let ?v = "dropWhile is_whitespace (rev ?u)"
  have t: "trim s = rev ?v" by (simp add: trim_def)
  with False have v: "?v \<noteq> []" by simp
  then have hv: "\<not> is_whitespace (hd ?v)" by (rule hd_dropWhile)
  from v have u: "?u \<noteq> []" by (metis dropWhile.simps(1) rev.simps(1))
  then have hu: "\<not> is_whitespace (hd ?u)" by (rule hd_dropWhile)
  from v have "last ?v = last (rev ?u)" by (rule last_dropWhile_eq)
  also from u have "\<dots> = hd ?u" by (simp only: last_rev)
  finally have lv: "\<not> is_whitespace (last ?v)" using hu by simp
  from v have "hd (rev ?v) = last ?v" and "last (rev ?v) = hd ?v"
    by (simp_all only: hd_rev last_rev)
  with hv lv show ?thesis unfolding t by simp
qed

lemma set_trim: "set (trim s) \<subseteq> set s"
proof -
  have "set (trim s) \<subseteq> set (dropWhile is_whitespace s)"
    unfolding trim_def using set_dropWhileD by fastforce
  also have "\<dots> \<subseteq> set s" using set_dropWhileD by fastforce
  finally show ?thesis .
qed

subsection \<open>The normal form\<close>

lemma collapse_hd:
  "t \<noteq> [] \<Longrightarrow> \<not> P (hd t) \<Longrightarrow> collapse P t \<noteq> [] \<and> hd (collapse P t) = hd t"
  by (cases t) simp_all

lemma collapse_last:
  "t \<noteq> [] \<Longrightarrow> \<not> P (last t) \<Longrightarrow> collapse P t \<noteq> [] \<and> last (collapse P t) = last t"
proof (induction P t rule: collapse.induct)
  case (1 P)
  then show ?case by simp
next
  case (2 P c cs)
  show ?case
  proof (cases "P c")
    case True
    with "2.prems" have cs: "cs \<noteq> []" by auto
    let ?d = "dropWhile P cs"
    from cs "2.prems" have lc: "\<not> P (last cs)" by simp
    have d: "?d \<noteq> []" by (metis cs lc dropWhile_eq_Nil_conv last_in_set)
    then have ld: "last ?d = last cs" by (rule last_dropWhile_eq)
    with lc have "\<not> P (last ?d)" by simp
    from "2.IH"(1) [OF True d this] ld
    have "collapse P ?d \<noteq> [] \<and> last (collapse P ?d) = last cs" by simp
    with True cs show ?thesis by simp
  next
    case False
    show ?thesis
    proof (cases "cs = []")
      case True
      with False show ?thesis by simp
    next
      case ne: False
      with "2.prems" have "\<not> P (last cs)" by simp
      from "2.IH"(2) [OF False ne this] False ne show ?thesis by simp
    qed
  qed
qed

lemma dropWhile_collapse:
  "y = [] \<or> \<not> P (hd y) \<Longrightarrow> dropWhile P (collapse P y) = collapse P y"
  by (cases y) auto

lemma collapse_idem: "P 0x20 \<Longrightarrow> collapse P (collapse P t) = collapse P t"
proof (induction P t rule: collapse.induct)
  case (1 P)
  then show ?case by simp
next
  case (2 P c cs)
  show ?case
  proof (cases "P c")
    case True
    let ?y = "dropWhile P cs"
    have "?y = [] \<or> \<not> P (hd ?y)" using hd_dropWhile [of P cs] by blast
    then have "dropWhile P (collapse P ?y) = collapse P ?y" by (rule dropWhile_collapse)
    moreover have "collapse P (collapse P ?y) = collapse P ?y"
      by (rule "2.IH"(1) [OF True "2.prems"])
    ultimately show ?thesis using True "2.prems" by simp
  next
    case False
    with "2.IH"(2) [OF False "2.prems"] show ?thesis by simp
  qed
qed

lemma collapse_cong:
  "list_all (\<lambda>c. P c = Q c) t \<Longrightarrow> collapse P t = collapse Q t"
proof (induction P t rule: collapse.induct)
  case (1 P)
  then show ?case by simp
next
  case (2 P c cs)
  from "2.prems" have c: "P c = Q c" and cs: "list_all (\<lambda>c. P c = Q c) cs" by simp_all
  from cs have dw: "dropWhile P cs = dropWhile Q cs"
    by (intro dropWhile_cong) (simp_all add: list_all_iff)
  show ?case
  proof (cases "P c")
    case True
    have "list_all (\<lambda>c. P c = Q c) (dropWhile P cs)"
      using cs set_dropWhileD [of _ P cs] by (auto simp: list_all_iff)
    from "2.IH"(1) [OF True this] True c dw show ?thesis by simp
  next
    case False
    from "2.IH"(2) [OF False cs] False c show ?thesis by simp
  qed
qed


subsection \<open>Upper-casing\<close>

lemma is_separator_whitespace: "is_separator c \<Longrightarrow> is_whitespace c"
  by (auto simp: is_separator_def is_whitespace_def)

lemma is_separator_space: "is_separator 0x20"
  by (simp add: is_separator_def)

lemma toUpperCase_Nil: "toUpperCase up [] = []"
  by (simp add: toUpperCase_def)

lemma toUpperCase_Cons: "toUpperCase up (c # cs) = up c @ toUpperCase up cs"
  by (simp add: toUpperCase_def)

lemma toUpperCase_append: "toUpperCase up (a @ b) = toUpperCase up a @ toUpperCase up b"
  by (simp add: toUpperCase_def)

lemma case_mapping_whitespace: "case_mapping up \<Longrightarrow> is_whitespace c \<Longrightarrow> up c = [c]"
  by (simp add: case_mapping_def)

lemma case_mapping_other:
  "case_mapping up \<Longrightarrow> \<not> is_whitespace c \<Longrightarrow>
     up c \<noteq> [] \<and> list_all (\<lambda>d. \<not> is_whitespace d) (up c)"
  by (simp add: case_mapping_def)

lemma case_mapping_twice: "case_mapping up \<Longrightarrow> toUpperCase up (up c) = up c"
  by (simp add: case_mapping_def)

lemma case_mapping_separator:
  assumes "case_mapping up" and "is_separator c"
  shows "up c = [c]"
  using assms is_separator_whitespace by (blast intro: case_mapping_whitespace)

lemma case_mapping_no_separator:
  assumes "case_mapping up" and "\<not> is_separator c"
  shows "up c \<noteq> [] \<and> list_all (\<lambda>d. \<not> is_separator d) (up c)"
proof (cases "is_whitespace c")
  case True
  with assms(1) have "up c = [c]" by (rule case_mapping_whitespace)
  with assms(2) show ?thesis by simp
next
  case False
  with assms(1) have o: "up c \<noteq> [] \<and> list_all (\<lambda>d. \<not> is_whitespace d) (up c)"
    by (rule case_mapping_other)
  then have "list_all (\<lambda>d. \<not> is_separator d) (up c)"
    unfolding list_all_iff using is_separator_whitespace by blast
  with o show ?thesis by simp
qed

lemma toUpperCase_idem:
  assumes "case_mapping up"
  shows "toUpperCase up (toUpperCase up t) = toUpperCase up t"
proof (induction t)
  case Nil
  show ?case by (simp add: toUpperCase_Nil)
next
  case (Cons c cs)
  have "toUpperCase up (toUpperCase up (c # cs))
      = toUpperCase up (up c) @ toUpperCase up (toUpperCase up cs)"
    by (simp only: toUpperCase_Cons toUpperCase_append)
  also have "\<dots> = up c @ toUpperCase up cs"
    by (simp only: case_mapping_twice [OF assms] Cons.IH)
  finally show ?case by (simp only: toUpperCase_Cons)
qed

lemma dropWhile_no_sep_Cons:
  "xs \<noteq> [] \<Longrightarrow> list_all (\<lambda>d. \<not> P d) xs \<Longrightarrow> dropWhile P (xs @ ys) = xs @ ys"
  by (cases xs) simp_all

lemma dropWhile_toUpperCase:
  assumes "case_mapping up"
  shows "dropWhile is_separator (toUpperCase up cs) = toUpperCase up (dropWhile is_separator cs)"
proof (induction cs)
  case Nil
  show ?case by (simp add: toUpperCase_Nil)
next
  case (Cons c cs)
  show ?case
  proof (cases "is_separator c")
    case True
    with assms have "up c = [c]" by (rule case_mapping_separator)
    with True Cons.IH show ?thesis by (simp add: toUpperCase_Cons)
  next
    case False
    with assms have "up c \<noteq> [] \<and> list_all (\<lambda>d. \<not> is_separator d) (up c)"
      by (rule case_mapping_no_separator)
    then have "dropWhile is_separator (up c @ toUpperCase up cs) = up c @ toUpperCase up cs"
      by (simp add: dropWhile_no_sep_Cons)
    with False show ?thesis by (simp add: toUpperCase_Cons)
  qed
qed

lemma toUpperCase_collapse:
  assumes "case_mapping up"
  shows "toUpperCase up (collapse is_separator t) = collapse is_separator (toUpperCase up t)"
proof (induction t rule: length_induct)
  case (1 t)
  show ?case
  proof (cases t)
    case Nil
    then show ?thesis by (simp add: toUpperCase_Nil)
  next
    case (Cons c cs)
    show ?thesis
    proof (cases "is_separator c")
      case True
      with assms have uc: "up c = [c]" by (rule case_mapping_separator)
      from assms is_separator_space have us: "up 0x20 = [0x20]" by (rule case_mapping_separator)
      have "length (dropWhile is_separator cs) < length t"
        using Cons length_dropWhile_le [of is_separator cs] by simp
      with 1 have ih: "toUpperCase up (collapse is_separator (dropWhile is_separator cs))
               = collapse is_separator (toUpperCase up (dropWhile is_separator cs))"
        by blast
      have "toUpperCase up (collapse is_separator t)
          = 0x20 # toUpperCase up (collapse is_separator (dropWhile is_separator cs))"
        using Cons True us by (simp add: toUpperCase_Cons)
      also have "\<dots> = 0x20 # collapse is_separator (dropWhile is_separator (toUpperCase up cs))"
        by (simp only: ih dropWhile_toUpperCase [OF assms])
      also have "\<dots> = collapse is_separator (c # toUpperCase up cs)"
        using True by simp
      also have "\<dots> = collapse is_separator (toUpperCase up t)"
        using Cons uc by (simp add: toUpperCase_Cons)
      finally show ?thesis .
    next
      case False
      with assms have n: "up c \<noteq> [] \<and> list_all (\<lambda>d. \<not> is_separator d) (up c)"
        by (rule case_mapping_no_separator)
      have "length cs < length t" using Cons by simp
      with 1 have ih: "toUpperCase up (collapse is_separator cs)
               = collapse is_separator (toUpperCase up cs)"
        by blast
      have "toUpperCase up (collapse is_separator t) = up c @ toUpperCase up (collapse is_separator cs)"
        using Cons False by (simp add: toUpperCase_Cons)
      also have "\<dots> = up c @ collapse is_separator (toUpperCase up cs)"
        by (simp only: ih)
      also have "\<dots> = collapse is_separator (up c @ toUpperCase up cs)"
        using n by (simp add: collapse_append_no_sep)
      also have "\<dots> = collapse is_separator (toUpperCase up t)"
        using Cons by (simp add: toUpperCase_Cons)
      finally show ?thesis .
    qed
  qed
qed

lemma toUpperCase_ends:
  assumes "case_mapping up" and "t \<noteq> []"
    and "\<not> is_whitespace (hd t)" and "\<not> is_whitespace (last t)"
  shows "toUpperCase up t \<noteq> []
       \<and> \<not> is_whitespace (hd (toUpperCase up t))
       \<and> \<not> is_whitespace (last (toUpperCase up t))"
proof -
  from assms(2) obtain c cs where t: "t = c # cs" by (meson neq_Nil_conv)
  with assms(3) have "\<not> is_whitespace c" by simp
  with assms(1) have c: "up c \<noteq> [] \<and> list_all (\<lambda>d. \<not> is_whitespace d) (up c)"
    by (rule case_mapping_other)
  have ut: "toUpperCase up t = up c @ toUpperCase up cs"
    unfolding t by (rule toUpperCase_Cons)
  from c have ne: "toUpperCase up t \<noteq> []" unfolding ut by simp
  from c have "hd (toUpperCase up t) = hd (up c)" unfolding ut by simp
  moreover from c have "hd (up c) \<in> set (up c)" by simp
  ultimately have h: "\<not> is_whitespace (hd (toUpperCase up t))"
    using c by (simp add: list_all_iff)
  from assms(2) have bl: "t = butlast t @ [last t]" by simp
  from assms(1,4) have l: "up (last t) \<noteq> [] \<and> list_all (\<lambda>d. \<not> is_whitespace d) (up (last t))"
    by (rule case_mapping_other)
  have "toUpperCase up t = toUpperCase up (butlast t @ [last t])"
    using bl by simp
  also have "\<dots> = toUpperCase up (butlast t) @ up (last t)"
    by (simp add: toUpperCase_append toUpperCase_Cons toUpperCase_Nil)
  finally have ul: "toUpperCase up t = toUpperCase up (butlast t) @ up (last t)" .
  from l have "last (toUpperCase up t) = last (up (last t))" unfolding ul by simp
  moreover from l have "last (up (last t)) \<in> set (up (last t))" by simp
  ultimately have "\<not> is_whitespace (last (toUpperCase up t))"
    using l by (simp add: list_all_iff)
  with ne h show ?thesis by simp
qed

lemma normalize_bk_idem:
  assumes "case_mapping up"
  shows "normalize_bk up (normalize_bk up s) = normalize_bk up s"
proof -
  let ?t = "toUpperCase up (trim s)"
  let ?n = "collapse is_separator ?t"
  have n: "normalize_bk up s = ?n" by (rule normalize_bk_collapse)
  have upn: "toUpperCase up ?n = ?n"
    by (simp only: toUpperCase_collapse [OF assms] toUpperCase_idem [OF assms])
  have tr: "trim ?n = ?n"
  proof (cases "trim s = []")
    case True
    then have "?n = []" by (simp add: toUpperCase_Nil)
    then show ?thesis by (simp add: trim_def)
  next
    case False
    with trim_trimmed [of s]
    have h: "\<not> is_whitespace (hd (trim s))" and l: "\<not> is_whitespace (last (trim s))"
      by auto
    from toUpperCase_ends [OF assms False h l]
    have t: "?t \<noteq> []" and ht: "\<not> is_whitespace (hd ?t)" and lt: "\<not> is_whitespace (last ?t)"
      by simp_all
    from ht have hs: "\<not> is_separator (hd ?t)" using is_separator_whitespace by blast
    from lt have ls: "\<not> is_separator (last ?t)" using is_separator_whitespace by blast
    from collapse_hd [of ?t is_separator, OF t hs] collapse_last [of ?t is_separator, OF t ls] ht lt
    have "\<not> is_whitespace (hd ?n) \<and> \<not> is_whitespace (last ?n)"
      by simp
    then show ?thesis by (intro trim_id) simp
  qed
  have "normalize_bk up ?n = collapse is_separator (toUpperCase up (trim ?n))"
    by (rule normalize_bk_collapse)
  also have "\<dots> = collapse is_separator ?n" by (simp only: tr upn)
  also have "\<dots> = ?n" using is_separator_space by (rule collapse_idem)
  finally show ?thesis by (simp only: n)
qed

lemma separator_spec_separator: "c \<noteq> 0x0B \<Longrightarrow> is_separator c = spec_separator c"
  by (auto simp: is_separator_def spec_separator_def)

lemma vertical_tab_whitespace: "is_whitespace 0x0B"
  by (simp add: is_whitespace_def)

lemma toUpperCase_no_vt:
  assumes "case_mapping up" and "0x0B \<notin> set t"
  shows "0x0B \<notin> set (toUpperCase up t)"
proof
  assume "0x0B \<in> set (toUpperCase up t)"
  then obtain c where c: "c \<in> set t" and v: "0x0B \<in> set (up c)"
    by (auto simp: toUpperCase_def)
  show False
  proof (cases "is_whitespace c")
    case True
    with assms(1) have "up c = [c]" by (rule case_mapping_whitespace)
    with v have "c = 0x0B" by simp
    with c assms(2) show False by blast
  next
    case False
    with assms(1) have "list_all (\<lambda>d. \<not> is_whitespace d) (up c)"
      by (blast dest: case_mapping_other)
    with v have "\<not> is_whitespace 0x0B" by (simp add: list_all_iff)
    with vertical_tab_whitespace show False by blast
  qed
qed

lemma normalize_bk_spec_no_vt:
  assumes "case_mapping up" and "0x0B \<notin> set s"
  shows "normalize_bk up s = spec_normalize up s"
proof -
  have nt: "0x0B \<notin> set (trim s)" using assms(2) set_trim [of s] by blast
  have nu: "0x0B \<notin> set (toUpperCase up (trim s))"
    using assms(1) nt by (rule toUpperCase_no_vt)
  have "list_all (\<lambda>c. is_separator c = spec_separator c) (toUpperCase up (trim s))"
    unfolding list_all_iff
  proof
    fix c
    assume "c \<in> set (toUpperCase up (trim s))"
    with nu have "c \<noteq> 0x0B" by blast
    then show "is_separator c = spec_separator c" by (rule separator_spec_separator)
  qed
  then have "collapse is_separator (toUpperCase up (trim s))
           = collapse spec_separator (toUpperCase up (trim s))"
    by (rule collapse_cong)
  then show ?thesis by (simp only: normalize_bk_collapse spec_normalize_def)
qed

lemma sample_upper_case_mapping: "case_mapping sample_upper"
  unfolding case_mapping_def
proof (intro conjI allI impI)
  fix c
  assume "is_whitespace c"
  then show "sample_upper c = [c]"
    by (auto simp: is_whitespace_def sample_upper_def)
next
  fix c
  assume "\<not> is_whitespace c"
  then show "sample_upper c \<noteq> []"
    by (simp add: sample_upper_def)
next
  fix c
  assume "\<not> is_whitespace c"
  then show "list_all (\<lambda>d. \<not> is_whitespace d) (sample_upper c)"
    by (auto simp: is_whitespace_def sample_upper_def)
next
  fix c
  show "toUpperCase sample_upper (sample_upper c) = sample_upper c"
    by (auto simp: toUpperCase_def sample_upper_def)
qed


text \<open>
  C8 (amended).  For every string, normalizing twice is normalizing once, and the normal
  form is the string trimmed at both ends, upper-cased, with every run of tab, newline,
  vertical tab, form feed, carriage return and space characters replaced by a single
  space; for a string without a vertical tab this is the wording with the five other
  characters.  The upper-case mapping of the runtime is a parameter; idempotence uses
  that it fixes white space, produces none, and is itself idempotent.
\<close>

theorem normalize_bk_idempotent_collapse:
  assumes "case_mapping up"
  shows "normalize_bk up (normalize_bk up s) = normalize_bk up s
       \<and> normalize_bk up s = collapse is_separator (toUpperCase up (trim s))
       \<and> (0x0B \<notin> set s \<longrightarrow> normalize_bk up s = spec_normalize up s)"
  using normalize_bk_idem [OF assms, of s] normalize_bk_collapse [of up s]
    normalize_bk_spec_no_vt [OF assms, of s]
  by blast

theorem normalize_bk_idempotent_collapse_witness:
  "case_mapping sample_upper
   \<and> normalize_bk sample_upper
        ([0xA0, 0x20] @ code_points ''stra'' @ [0xDF, 0x65, 0x09, 0x0A] @ code_points ''caf''
          @ [0xE9, 0x20, 0x20, 0xA0, 0x20] @ code_points ''x '' @ [0xFEFF])
       = code_points ''STRASSE CAF'' @ [0xC9, 0x20, 0xA0, 0x20] @ code_points ''X''
   \<and> normalize_bk sample_upper
        (code_points ''STRASSE CAF'' @ [0xC9, 0x20, 0xA0, 0x20] @ code_points ''X'')
       = code_points ''STRASSE CAF'' @ [0xC9, 0x20, 0xA0, 0x20] @ code_points ''X''
   \<and> spec_normalize sample_upper
        ([0xA0, 0x20] @ code_points ''stra'' @ [0xDF, 0x65, 0x09, 0x0A] @ code_points ''caf''
          @ [0xE9, 0x20, 0x20, 0xA0, 0x20] @ code_points ''x '' @ [0xFEFF])
       = code_points ''STRASSE CAF'' @ [0xC9, 0x20, 0xA0, 0x20] @ code_points ''X''"
proof -
  let ?s = "[0xA0, 0x20] @ code_points ''stra'' @ [0xDF, 0x65, 0x09, 0x0A] @ code_points ''caf''
          @ [0xE9, 0x20, 0x20, 0xA0, 0x20] @ code_points ''x '' @ [0xFEFF]"
  let ?n = "code_points ''STRASSE CAF'' @ [0xC9, 0x20, 0xA0, 0x20] @ code_points ''X''"
  have m: "case_mapping sample_upper" by (rule sample_upper_case_mapping)
  have e: "normalize_bk sample_upper ?s = ?n"
    by (simp add: normalize_bk_def split_runs.simps Let_def trim_def is_whitespace_def
          toUpperCase_def sample_upper_def is_separator_def code_points_def)
  have v: "0x0B \<notin> set ?s" by (simp add: code_points_def)
  from normalize_bk_idempotent_collapse [OF m, of ?s]
  have "normalize_bk sample_upper (normalize_bk sample_upper ?s) = normalize_bk sample_upper ?s"
    and "0x0B \<notin> set ?s \<longrightarrow> normalize_bk sample_upper ?s = spec_normalize sample_upper ?s"
    by blast+
  with m e v show ?thesis by (simp only: simp_thms)
qed

text \<open>
  A vertical tab between two letters is replaced by a space, which the wording with
  tab, newline, space, carriage return and form feed alone does not do.
\<close>

theorem normalize_bk_vertical_tab_counterexample:
  "normalize_bk sample_upper [0x61, 0x0B, 0x62] = [0x41, 0x20, 0x42]
   \<and> spec_normalize sample_upper [0x61, 0x0B, 0x62] = [0x41, 0x0B, 0x42]
   \<and> normalize_bk sample_upper [0x61, 0x0B, 0x62] \<noteq> spec_normalize sample_upper [0x61, 0x0B, 0x62]"
  by (simp add: normalize_bk_def split_runs.simps Let_def spec_normalize_def trim_def
        is_whitespace_def toUpperCase_def sample_upper_def is_separator_def spec_separator_def)


section \<open>Properties of key generation\<close>

text \<open>
  C9.  \<open>generateKeys\<close> is the derivation at sequence 0 on the normalized phrase followed
  by the computation of the public key from the derived private key: a returned pair
  consists of that private key and of the public key computed from it.
\<close>

theorem generateKeys_sequence_0:
  "generateKeys up K phrase =
     (case derivePrivateKey K (normalize_bk up phrase) 0 of
        Inl e \<Rightarrow> Inl e
      | Inr pkey \<Rightarrow>
          (case KeyPublic_fromPrivateKey K pkey of
             Inl msg \<Rightarrow> Inl (Thrown msg)
           | Inr pubKey \<Rightarrow> Inr (pkey, pubKey)))
   \<and> (generateKeys up K phrase = Inr (priv, pub) \<longrightarrow>
        derivePrivateKey K (normalize_bk up phrase) 0 = Inr priv
        \<and> KeyPublic_fromPrivateKey K priv = Inr pub)"
  by (auto simp: generateKeys_def derivePrivateKey_def fromBrainKey_default_def Let_def
           split: sum.splits)

theorem generateKeys_sequence_0_witness:
  "generateKeys sample_upper sample_keygen (code_points '' ab  c '') = Inr (4, 8)
   \<and> derivePrivateKey sample_keygen (normalize_bk sample_upper (code_points '' ab  c '')) 0 = Inr 4
   \<and> KeyPublic_fromPrivateKey sample_keygen 4 = Inr 8"
proof -
  have n: "normalize_bk sample_upper (code_points '' ab  c '') = code_points ''AB C''"
    by (simp add: normalize_bk_def split_runs.simps Let_def trim_def is_whitespace_def
          toUpperCase_def sample_upper_def is_separator_def code_points_def)
  have g: "generateKeys sample_upper sample_keygen (code_points '' ab  c '') = Inr (4, 8)"
    unfolding generateKeys_def n
    by (simp add: fromBrainKey_default_def sample_keygen_def code_points_def)
  from generateKeys_sequence_0 [of sample_upper sample_keygen "code_points '' ab  c ''" 4 8]
  have "generateKeys sample_upper sample_keygen (code_points '' ab  c '') = Inr (4, 8) \<longrightarrow>
        derivePrivateKey sample_keygen (normalize_bk sample_upper (code_points '' ab  c '')) 0 = Inr 4
        \<and> KeyPublic_fromPrivateKey sample_keygen 4 = Inr 8"
    by (rule conjunct2)
  with g show ?thesis by blast
qed


end
